theory Spec2Isabelle
  imports Complex_Main "HOL-Library.Multiset"
begin

section \<open>Text\<close>

text \<open>
  Message texts and user names are Python \<^verbatim>\<open>str\<close> values. They are modelled as
  \<^typ>\<open>string\<close>, one \<^typ>\<open>char\<close> per code point, and the character classes of
  \<^verbatim>\<open>str.strip\<close>, \<^verbatim>\<open>str.lower\<close>, \<^verbatim>\<open>str.isupper\<close> and of the regular expression classes
  \<^verbatim>\<open>\w\<close> and \<^verbatim>\<open>\s\<close> are those of the 7-bit range: a code point above 127 counts as
  neither white space, nor cased, nor a word character.
\<close>

definition is_space :: "char \<Rightarrow> bool" where
  "is_space c = (of_char c \<in> set [9, 10, 11, 12, 13, 28, 29, 30, 31, 32 :: nat])"

definition is_upper_char :: "char \<Rightarrow> bool" where
  "is_upper_char c = (65 \<le> (of_char c :: nat) \<and> (of_char c :: nat) \<le> 90)"

definition is_lower_char :: "char \<Rightarrow> bool" where
  "is_lower_char c = (97 \<le> (of_char c :: nat) \<and> (of_char c :: nat) \<le> 122)"

definition is_digit_char :: "char \<Rightarrow> bool" where
  "is_digit_char c = (48 \<le> (of_char c :: nat) \<and> (of_char c :: nat) \<le> 57)"

definition lower_char :: "char \<Rightarrow> char" where
  "lower_char c = (if is_upper_char c then char_of (of_char c + (32 :: nat)) else c)"

text \<open>\<^verbatim>\<open>s.lower()\<close>\<close>

definition lower :: "string \<Rightarrow> string" where
  "lower s = map lower_char s"

text \<open>\<^verbatim>\<open>s.strip()\<close>: leading and trailing white space removed.\<close>

definition strip :: "string \<Rightarrow> string" where
  "strip s = dropWhile is_space (rev (dropWhile is_space (rev s)))"

text \<open>
  \<^verbatim>\<open>s.isupper()\<close>: at least one cased character, and no cased character is lower case.
\<close>

definition isupper :: "string \<Rightarrow> bool" where
  "isupper s = (list_ex is_upper_char s \<and> list_all (\<lambda>c. \<not> is_lower_char c) s)"

fun startswith :: "string \<Rightarrow> string \<Rightarrow> bool" where
  "startswith s [] = True"
| "startswith [] (k # ks) = False"
| "startswith (c # cs) (k # ks) = (c = k \<and> startswith cs ks)"

text \<open>\<^verbatim>\<open>k in s\<close> for two strings: \<open>k\<close> occurs in \<open>s\<close> as a contiguous run.\<close>

fun contains :: "string \<Rightarrow> string \<Rightarrow> bool" where
  "contains [] k = (k = [])"
| "contains (c # cs) k = (startswith (c # cs) k \<or> contains cs k)"

text \<open>\<^verbatim>\<open>s.count(c)\<close> for a single character \<open>c\<close>.\<close>

definition count_char :: "string \<Rightarrow> char \<Rightarrow> nat" where
  "count_char s c = length (filter (\<lambda>d. d = c) s)"

section \<open>Messages\<close>

text \<open>
  The dictionary built by \<^verbatim>\<open>add_message\<close>. The key \<^verbatim>\<open>'text'\<close> is the field
  \<open>msg_text\<close>. Clock readings (\<^verbatim>\<open>time.time()\<close>) are idealised as real numbers, and every
  function that reads the clock takes the reading as an argument.
\<close>

record message_obj =
  msg_text :: string
  priority :: int
  priority_name :: string
  user :: string
  timestamp :: real
  counter :: int
  detection_method :: string

text \<open>The exceptions that the modelled code can raise.\<close>

datatype exn = IndexError | ValueError | OverflowError | EmitError

section \<open>CircularQueue (models/circular\_queue.py)\<close>

text \<open>
  \<^verbatim>\<open>deque(maxlen=max_size)\<close>: the constructor raises \<^verbatim>\<open>ValueError\<close> for a negative
  \<^verbatim>\<open>max_size\<close>, so that the capacity of an existing queue is a natural number.
\<close>

record circular_queue =
  cq_queue :: "message_obj list"
  max_size :: nat

definition CircularQueue :: "int \<Rightarrow> exn + circular_queue" where
  "CircularQueue n =
     (if n < 0 then Inl ValueError else Inr \<lparr>cq_queue = [], max_size = nat n\<rparr>)"

text \<open>
  \<^verbatim>\<open>deque.append\<close> on a bounded deque: with \<^verbatim>\<open>maxlen = 0\<close> nothing is stored; a full
  deque discards its leftmost element.
\<close>

definition deque_append :: "nat \<Rightarrow> 'a list \<Rightarrow> 'a \<Rightarrow> 'a list" where
  "deque_append maxlen q x =
     (if maxlen = 0 then q
      else if length q = maxlen then tl q @ [x]
      else q @ [x])"

definition cq_enqueue :: "circular_queue \<Rightarrow> message_obj \<Rightarrow> circular_queue" where
  "cq_enqueue h m = h\<lparr>cq_queue := deque_append (max_size h) (cq_queue h) m\<rparr>"

definition get_all :: "circular_queue \<Rightarrow> message_obj list" where
  "get_all h = cq_queue h"

definition latest :: "circular_queue \<Rightarrow> message_obj option" where
  "latest h = (if cq_queue h = [] then None else Some (last (cq_queue h)))"

definition cq_clear :: "circular_queue \<Rightarrow> nat \<times> circular_queue" where
  "cq_clear h = (length (cq_queue h), h\<lparr>cq_queue := []\<rparr>)"

section \<open>The binary heap of heapq\<close>

text \<open>
  The pending set is a Python list handled by \<^verbatim>\<open>heapq.heappush\<close> and
  \<^verbatim>\<open>heapq.heappop\<close>; its items are the tuples \<^verbatim>\<open>(priority, counter, message_obj)\<close>.
  Python compares tuples lexicographically. The third component, a dictionary, is compared
  only between two items of equal priority and equal counter; the lemma
  \<open>reachable_distinct_counters\<close> below shows that the heap never holds two such items.
\<close>

type_synonym heap_item = "int \<times> int \<times> message_obj"

definition item_lt :: "heap_item \<Rightarrow> heap_item \<Rightarrow> bool" where
  "item_lt a b =
     (fst a < fst b \<or> (fst a = fst b \<and> fst (snd a) < fst (snd b)))"

function siftdown_loop ::
  "heap_item list \<Rightarrow> nat \<Rightarrow> nat \<Rightarrow> heap_item \<Rightarrow> heap_item list" where
  "siftdown_loop heap startpos pos newitem =
     (if pos > startpos then
        (let parentpos = (pos - 1) div 2;
             parent = heap ! parentpos
         in if item_lt newitem parent
            then siftdown_loop (heap[pos := parent]) startpos parentpos newitem
            else heap[pos := newitem])
      else heap[pos := newitem])"
  by pat_completeness auto
termination
  by (relation "measure (\<lambda>(heap, startpos, pos, newitem). pos)") auto

declare siftdown_loop.simps [simp del]

definition siftdown :: "heap_item list \<Rightarrow> nat \<Rightarrow> nat \<Rightarrow> heap_item list" where
  "siftdown heap startpos pos = siftdown_loop heap startpos pos (heap ! pos)"

function siftup_loop ::
  "heap_item list \<Rightarrow> nat \<Rightarrow> nat \<Rightarrow> nat \<Rightarrow> heap_item list \<times> nat" where
  "siftup_loop heap endpos pos childpos =
     (if childpos < endpos then
        (let rightpos = childpos + 1;
             childpos' = (if rightpos < endpos \<and> \<not> item_lt (heap ! childpos) (heap ! rightpos)
                          then rightpos else childpos)
         in siftup_loop (heap[pos := heap ! childpos']) endpos childpos' (2 * childpos' + 1))
      else (heap, pos))"
  by pat_completeness auto
termination
  by (relation "measure (\<lambda>(heap, endpos, pos, childpos). endpos - childpos)") auto

declare siftup_loop.simps [simp del]

definition siftup :: "heap_item list \<Rightarrow> nat \<Rightarrow> heap_item list" where
  "siftup heap pos =
     (let endpos = length heap;
          startpos = pos;
          newitem = heap ! pos;
          (heap', pos') = siftup_loop heap endpos pos (2 * pos + 1)
      in siftdown (heap'[pos' := newitem]) startpos pos')"

definition heappush :: "heap_item list \<Rightarrow> heap_item \<Rightarrow> heap_item list" where
  "heappush heap item = siftdown (heap @ [item]) 0 (length (heap @ [item]) - 1)"

definition heappop :: "heap_item list \<Rightarrow> exn + (heap_item \<times> heap_item list)" where
  "heappop heap =
     (if heap = [] then Inl IndexError
      else (let lastelt = last heap;
                heap' = butlast heap
            in if heap' \<noteq> []
               then Inr (heap' ! 0, siftup (heap'[0 := lastelt]) 0)
               else Inr (lastelt, heap')))"

section \<open>PriorityMessageQueue (models/priority\_queue.py)\<close>

record pmq =
  priority_queue :: "heap_item list"
  history :: circular_queue
  message_counter :: int

definition PriorityMessageQueue :: "int \<Rightarrow> exn + pmq" where
  "PriorityMessageQueue max_history_size =
     (case CircularQueue max_history_size of
        Inl e \<Rightarrow> Inl e
      | Inr h \<Rightarrow> Inr \<lparr>priority_queue = [], history = h, message_counter = 0\<rparr>)"

definition URGENT_KEYWORDS :: "string list" where
  "URGENT_KEYWORDS =
     [''urgent'', ''emergency'', ''help'', ''asap'', ''911'',
      ''critical'', ''bug'', ''down'', ''broken'', ''crash'']"

definition HIGH_KEYWORDS :: "string list" where
  "HIGH_KEYWORDS =
     [''important'', ''priority'', ''meeting'', ''deadline'',
      ''issue'', ''attention'', ''review'', ''approval'']"

definition get_priority_name :: "int \<Rightarrow> string" where
  "get_priority_name p =
     (if p = 1 then ''URGENT''
      else if p = 2 then ''HIGH''
      else if p = 3 then ''NORMAL''
      else if p = 4 then ''LOW''
      else ''NORMAL'')"

definition auto_detect_priority :: "string \<Rightarrow> int" where
  "auto_detect_priority message =
     (let message_lower = strip (lower message) in
      if list_ex (\<lambda>keyword. contains message_lower keyword) URGENT_KEYWORDS then 1
      else if list_ex (\<lambda>keyword. contains message_lower keyword) HIGH_KEYWORDS then 2
      else if CHR ''@'' \<in> set message \<and> length message > 1 then 2
      else if length message > 5 \<and> isupper message then 2
      else if count_char message (CHR ''!'') \<ge> 3 then 2
      else 3)"

text \<open>
  \<^verbatim>\<open>add_message(message, user, manual_priority)\<close> at clock reading \<open>now\<close>. The test
  \<^verbatim>\<open>if manual_priority:\<close> is Python truthiness: \<^verbatim>\<open>None\<close> and \<^verbatim>\<open>0\<close> are false,
  every other integer is true.
\<close>

definition add_message ::
  "real \<Rightarrow> string \<Rightarrow> string \<Rightarrow> int option \<Rightarrow> pmq \<Rightarrow> message_obj \<times> pmq" where
  "add_message now message usr manual_priority s =
     (let message_counter' = message_counter s + 1;
          (prio, method) =
             (case manual_priority of
                None \<Rightarrow> (auto_detect_priority message, ''auto'')
              | Some p \<Rightarrow> if p \<noteq> 0 then (p, ''manual'')
                          else (auto_detect_priority message, ''auto''));
          message_obj = \<lparr>msg_text = message, priority = prio,
                         priority_name = get_priority_name prio, user = usr,
                         timestamp = now, counter = message_counter',
                         detection_method = method\<rparr>
      in (message_obj,
          s\<lparr>message_counter := message_counter',
            priority_queue := heappush (priority_queue s) (prio, message_counter', message_obj),
            history := cq_enqueue (history s) message_obj\<rparr>))"

definition get_next_message :: "pmq \<Rightarrow> message_obj option \<times> pmq" where
  "get_next_message s =
     (if priority_queue s = [] then (None, s)
      else (case heappop (priority_queue s) of
              Inl e \<Rightarrow> (None, s)
            | Inr ((prio, cnt, message_obj), heap') \<Rightarrow>
                (Some message_obj, s\<lparr>priority_queue := heap'\<rparr>)))"

definition peek_next_message :: "pmq \<Rightarrow> message_obj option" where
  "peek_next_message s =
     (if priority_queue s = [] then None
      else Some (snd (snd (priority_queue s ! 0))))"

definition get_history :: "pmq \<Rightarrow> message_obj list" where
  "get_history s = get_all (history s)"

definition clear_queue :: "pmq \<Rightarrow> nat \<times> pmq" where
  "clear_queue s = (length (priority_queue s), s\<lparr>priority_queue := []\<rparr>)"

definition clear_all :: "pmq \<Rightarrow> (nat \<times> nat) \<times> pmq" where
  "clear_all s =
     ((length (priority_queue s), length (get_all (history s))),
      s\<lparr>priority_queue := [], history := snd (cq_clear (history s)), message_counter := 0\<rparr>)"

text \<open>A queue as \<^verbatim>\<open>PriorityMessageQueue(max_history_size=n)\<close> leaves it.\<close>

definition fresh_pmq :: "nat \<Rightarrow> pmq" where
  "fresh_pmq n =
     \<lparr>priority_queue = [], history = \<lparr>cq_queue = [], max_size = n\<rparr>, message_counter = 0\<rparr>"

section \<open>BatchQueue (models/batch\_queue.py)\<close>

record 'm batch_queue =
  bq_queue :: "'m list"
  min_batch_size :: int
  max_batch_size :: int

definition BatchQueue :: "int \<Rightarrow> int \<Rightarrow> 'm batch_queue" where
  "BatchQueue lo hi = \<lparr>bq_queue = [], min_batch_size = lo, max_batch_size = hi\<rparr>"




definition force_flush :: "'m batch_queue \<Rightarrow> 'm list \<times> 'm batch_queue" where
  "force_flush b = (bq_queue b, b\<lparr>bq_queue := []\<rparr>)"

definition bq_size :: "'m batch_queue \<Rightarrow> nat" where
  "bq_size b = length (bq_queue b)"

section \<open>RetryQueue (models/retry\_queue.py)\<close>

text \<open>
  An entry is the tuple \<^verbatim>\<open>(message, retry_count, next_time)\<close>. The power
  \<^verbatim>\<open>2 ** retry_count\<close> is an integer for a count from 0 on, and the float \<open>1 / 2 ^ n\<close> for
  the count \<open>- n\<close>. Adding it to the clock reading converts it to a float, which raises
  \<^verbatim>\<open>OverflowError\<close> from \<open>2 ^ 1024\<close> on. Apart from that the sum is taken in the reals:
  rounding is not modelled.
\<close>

record 'm retry_queue =
  rq_queue :: "('m \<times> int \<times> real) list"
  max_retries :: int

definition RetryQueue :: "int \<Rightarrow> 'm retry_queue" where
  "RetryQueue n = \<lparr>rq_queue = [], max_retries = n\<rparr>"

definition pow2 :: "int \<Rightarrow> real" where
  "pow2 a = (if 0 \<le> a then 2 ^ nat a else 1 / 2 ^ nat (- a))"

definition rq_enqueue :: "real \<Rightarrow> 'm \<Rightarrow> int \<Rightarrow> 'm retry_queue \<Rightarrow> exn + 'm retry_queue" where
  "rq_enqueue now message retry_count q =
     (if 1024 \<le> retry_count then Inl OverflowError
      else (let next_time = now + pow2 retry_count
            in Inr (q\<lparr>rq_queue := rq_queue q @ [(message, retry_count, next_time)]\<rparr>)))"

text \<open>
  \<^verbatim>\<open>get_ready_message\<close> reads the clock only when the queue is not empty; \<open>now\<close> is that
  reading.
\<close>

definition get_ready_message ::
  "real \<Rightarrow> 'm retry_queue \<Rightarrow> ('m \<times> int) option \<times> 'm retry_queue" where
  "get_ready_message now q =
     (case rq_queue q of
        [] \<Rightarrow> (None, q)
      | (message, retry_count, next_time) # rest \<Rightarrow>
          if now \<ge> next_time then (Some (message, retry_count), q\<lparr>rq_queue := rest\<rparr>)
          else (None, q))"

definition process :: "real \<Rightarrow> 'm retry_queue \<Rightarrow> 'm option \<times> 'm retry_queue" where
  "process now q =
     (case get_ready_message now q of
        (None, q') \<Rightarrow> (None, q')
      | (Some (message, retry_count), q') \<Rightarrow>
          if retry_count < max_retries q' then (Some message, q') else (None, q'))"

definition rq_size :: "'m retry_queue \<Rightarrow> nat" where
  "rq_size q = length (rq_queue q)"

section \<open>Validation (utils/message\_utils.py)\<close>

text \<open>\<^verbatim>\<open>s.replace(c, r)\<close> for a single character \<open>c\<close>.\<close>

definition replace_char :: "char \<Rightarrow> string \<Rightarrow> string \<Rightarrow> string" where
  "replace_char c r s = concat (map (\<lambda>d. if d = c then r else [d]) s)"

text \<open>\<^verbatim>\<open>html.escape(s)\<close> with its default \<^verbatim>\<open>quote=True\<close>.\<close>

definition html_escape :: "string \<Rightarrow> string" where
  "html_escape s =
     replace_char (CHR 0x27) ''&#x27;''
       (replace_char (CHR 0x22) ''&quot;''
          (replace_char (CHR ''>'') ''&gt;''
             (replace_char (CHR ''<'') ''&lt;''
                (replace_char (CHR ''&'') ''&amp;'' s))))"




text \<open>The characters that \<^verbatim>\<open>re.sub(r'[^\w\-\s]', '', username)\<close> keeps.\<close>

definition is_word_char :: "char \<Rightarrow> bool" where
  "is_word_char c =
     (is_upper_char c \<or> is_lower_char c \<or> is_digit_char c \<or> c = CHR ''_'')"

definition username_char :: "char \<Rightarrow> bool" where
  "username_char c = (is_word_char c \<or> c = CHR ''-'' \<or> is_space c)"

record username_validation =
  uv_valid :: bool
  sanitized_username :: string
  was_modified :: bool

definition validate_username :: "string \<Rightarrow> username_validation" where
  "validate_username raw =
     (let username = strip raw;
          username = (if username = [] then ''Anonymous'' else username);
          username = (if length username > 50 then take 50 username else username);
          username = filter username_char username;
          username = html_escape username
      in \<lparr>uv_valid = True, sanitized_username = username, was_modified = False\<rparr>)"

text \<open>
  The payload sent to the clients. \<^verbatim>\<open>format_timestamp\<close> renders the local wall-clock
  time of a timestamp; it depends on the time zone of the host and is a parameter.
\<close>

record client_msg =
  c_text :: string
  c_user :: string
  c_priority :: int
  c_priority_name :: string
  c_timestamp :: real
  formatted_time :: string
  c_detection_method :: string


section \<open>ChatSocketHandlers (handlers/socket\_handlers.py)\<close>

text \<open>
  What the handler exchanges with the outside is explicit. The environment gives the
  successive clock readings, says which calls of \<^verbatim>\<open>emit\<close> raise, and renders time
  stamps. The state counts the clock readings and the calls of \<^verbatim>\<open>emit\<close> made so far
  and records the events that were sent.
\<close>

datatype event =
  Error string string
| NewMessageBatch "client_msg list"
| NewMessage client_msg

record env =
  clock :: "nat \<Rightarrow> real"
  emit_raises :: "nat \<Rightarrow> bool"
  format_timestamp :: "real \<Rightarrow> string"

record handlers =
  message_system :: pmq
  batch_queue :: "client_msg batch_queue"
  retry_queue :: "client_msg retry_queue"
  ticks :: nat
  emits :: nat
  emitted :: "event list"

definition time_time :: "env \<Rightarrow> handlers \<Rightarrow> real \<times> handlers" where
  "time_time e h = (clock e (ticks h), h\<lparr>ticks := Suc (ticks h)\<rparr>)"

definition emit :: "env \<Rightarrow> event \<Rightarrow> handlers \<Rightarrow> (exn + unit) \<times> handlers" where
  "emit e ev h =
     (if emit_raises e (emits h) then (Inl EmitError, h\<lparr>emits := Suc (emits h)\<rparr>)
      else (Inr (), h\<lparr>emits := Suc (emits h), emitted := emitted h @ [ev]\<rparr>))"




text \<open>\<^verbatim>\<open>self.retry_queue.process()\<close> with its clock reading.\<close>

definition retry_process :: "env \<Rightarrow> handlers \<Rightarrow> client_msg option \<times> handlers" where
  "retry_process e h =
     (if rq_queue (retry_queue h) = [] then (None, h)
      else (let (now, h1) = time_time e h;
                (retry_msg, q') = process now (retry_queue h1)
            in (retry_msg, h1\<lparr>retry_queue := q'\<rparr>)))"

text \<open>\<^verbatim>\<open>self.retry_queue.enqueue(msg)\<close>: the attempt count is the default, 0.\<close>

definition retry_enqueue :: "env \<Rightarrow> client_msg \<Rightarrow> handlers \<Rightarrow> (exn + unit) \<times> handlers" where
  "retry_enqueue e msg h =
     (let (now, h1) = time_time e h
      in case rq_enqueue now msg 0 (retry_queue h1) of
           Inl x \<Rightarrow> (Inl x, h1)
         | Inr q' \<Rightarrow> (Inr (), h1\<lparr>retry_queue := q'\<rparr>))"

text \<open>
  \<^verbatim>\<open>process_retry_queue\<close> is a \<^verbatim>\<open>while True\<close> loop that stops when \<^verbatim>\<open>process\<close> returns
  nothing. Nothing bounds its iterations, so it is a partial function: \<open>None\<close> is a
  loop that does not return.
\<close>

partial_function (option) process_retry_queue ::
  "env \<Rightarrow> handlers \<Rightarrow> ((exn + unit) \<times> handlers) option" where
  "process_retry_queue e h =
     (case retry_process e h of
        (None, h1) \<Rightarrow> Some (Inr (), h1)
      | (Some retry_msg, h1) \<Rightarrow>
          (case emit e (NewMessage retry_msg) h1 of
             (Inr u, h2) \<Rightarrow> process_retry_queue e h2
           | (Inl x, h2) \<Rightarrow>
               (case retry_enqueue e retry_msg h2 of
                  (Inl x', h3) \<Rightarrow> Some (Inl x', h3)
                | (Inr u, h3) \<Rightarrow> process_retry_queue e h3)))"




text \<open>
  The handler state as \<^verbatim>\<open>ChatSocketHandlers(message_system, socketio)\<close> leaves it, before
  any clock reading or \<^verbatim>\<open>emit\<close>.
\<close>

definition ChatSocketHandlers :: "pmq \<Rightarrow> handlers" where
  "ChatSocketHandlers ms =
     \<lparr>message_system = ms, batch_queue = BatchQueue 5 50, retry_queue = RetryQueue 5,
      ticks = 0, emits = 0, emitted = []\<rparr>"

section \<open>Sequences of operations\<close>

text \<open>
  The claims speak of what holds after any sequence of calls. A sequence of calls on a
  \<^verbatim>\<open>PriorityMessageQueue\<close> is a list of operations; \<open>run_ops\<close> performs them in order and
  returns the message objects that the calls of \<^verbatim>\<open>add_message\<close> created, in the order of
  their creation.
\<close>

datatype pmq_op =
  Add real string string "int option"
| Next
| Peek
| ClearQueue
| ClearAll

fun pmq_step :: "pmq_op \<Rightarrow> pmq \<Rightarrow> message_obj list \<times> pmq" where
  "pmq_step (Add now message usr manual_priority) s =
     (let (m, s') = add_message now message usr manual_priority s in ([m], s'))"
| "pmq_step Next s = ([], snd (get_next_message s))"
| "pmq_step Peek s = ([], s)"
| "pmq_step ClearQueue s = ([], snd (clear_queue s))"
| "pmq_step ClearAll s = ([], snd (clear_all s))"

fun run_ops :: "pmq_op list \<Rightarrow> pmq \<Rightarrow> message_obj list \<times> pmq" where
  "run_ops [] s = ([], s)"
| "run_ops (x # xs) s =
     (let (ms, s') = pmq_step x s;
          (ms', s'') = run_ops xs s'
      in (ms @ ms', s''))"

text \<open>\<open>n\<close> successive calls of \<^verbatim>\<open>get_next_message\<close>, with their results.\<close>

fun next_n :: "nat \<Rightarrow> pmq \<Rightarrow> message_obj option list \<times> pmq" where
  "next_n 0 s = ([], s)"
| "next_n (Suc n) s =
     (let (r, s') = get_next_message s;
          (rs, s'') = next_n n s'
      in (r # rs, s''))"

text \<open>The messages among the results.\<close>

fun somes :: "'a option list \<Rightarrow> 'a list" where
  "somes [] = []"
| "somes (None # rs) = somes rs"
| "somes (Some x # rs) = x # somes rs"

text \<open>
  A sequence of calls on a \<^verbatim>\<open>RetryQueue\<close>, each with the clock reading it sees. A call of
  \<^verbatim>\<open>enqueue\<close> that raises leaves the queue as it was.
\<close>

datatype 'm rq_op =
  Enqueue real 'm int
| Process real

fun rq_step :: "'m rq_op \<Rightarrow> 'm retry_queue \<Rightarrow> 'm retry_queue" where
  "rq_step (Enqueue now message retry_count) q =
     (case rq_enqueue now message retry_count q of Inl x \<Rightarrow> q | Inr q' \<Rightarrow> q')"
| "rq_step (Process now) q = snd (process now q)"






section \<open>The heap invariant\<close>

text \<open>
  The order of the heap: \<open>item_le a b\<close> is \<^verbatim>\<open>not b < a\<close> on the keys (priority, counter).
\<close>

definition item_le :: "heap_item \<Rightarrow> heap_item \<Rightarrow> bool" where
  "item_le a b = (\<not> item_lt b a)"

text \<open>The invariant of heapq: no item is below its parent, the item at \<open>(i - 1) div 2\<close>.\<close>

definition is_heap :: "heap_item list \<Rightarrow> bool" where
  "is_heap h = (\<forall>i. 0 < i \<and> i < length h \<longrightarrow> item_le (h ! ((i - 1) div 2)) (h ! i))"

text \<open>
  While an item travels, position \<open>pos\<close> holds a stale value: the invariant then holds
  between all pairs of parent and child that do not involve \<open>pos\<close>.
\<close>

definition heap_but :: "heap_item list \<Rightarrow> nat \<Rightarrow> bool" where
  "heap_but h pos =
     (\<forall>i. 0 < i \<and> i < length h \<and> i \<noteq> pos \<and> (i - 1) div 2 \<noteq> pos
          \<longrightarrow> item_le (h ! ((i - 1) div 2)) (h ! i))"

text \<open>\<open>x\<close> is not above any child of position \<open>pos\<close>.\<close>

definition children_ge :: "heap_item list \<Rightarrow> nat \<Rightarrow> heap_item \<Rightarrow> bool" where
  "children_ge h pos x =
     (\<forall>c. 0 < c \<and> c < length h \<and> (c - 1) div 2 = pos \<longrightarrow> item_le x (h ! c))"

text \<open>
  The invariant of a \<^verbatim>\<open>PriorityMessageQueue\<close>: the pending list is a heap, the key of
  each item is the priority and the counter of its message, and the counters of the items
  are pairwise distinct and at most \<^verbatim>\<open>message_counter\<close>.
\<close>

definition item_of :: "message_obj \<Rightarrow> heap_item" where
  "item_of m = (priority m, counter m, m)"

definition pmq_ok :: "pmq \<Rightarrow> bool" where
  "pmq_ok s =
     (is_heap (priority_queue s)
      \<and> (\<forall>x \<in> set (priority_queue s). x = item_of (snd (snd x)))
      \<and> distinct (map (\<lambda>x. fst (snd x)) (priority_queue s))
      \<and> (\<forall>x \<in> set (priority_queue s). fst (snd x) \<le> message_counter s))"

text \<open>The order in which \<^verbatim>\<open>get_next_message\<close> is to return messages.\<close>

definition msg_le :: "message_obj \<Rightarrow> message_obj \<Rightarrow> bool" where
  "msg_le a b =
     (priority a < priority b \<or> (priority a = priority b \<and> counter a \<le> counter b))"

section \<open>Automatic and manual priority\<close>

lemma detect_urgent_text: "auto_detect_priority ''this is urgent!!!'' = 1"
  by code_simp

lemma detect_caps_text: "auto_detect_priority ''PLEASE REVIEW NOW'' = 2"
  by code_simp

lemma detect_mention_text: "auto_detect_priority ''hello @bob'' = 2"
  by code_simp

lemma detect_plain_text: "auto_detect_priority ''hi'' = 3"
  by code_simp

text \<open>
  C7. Admitting without a manual priority gives ``this is urgent!!!'' the priority URGENT
  (1), ``PLEASE REVIEW NOW'' and ``hello @bob'' the priority HIGH (2) and ``hi'' the
  priority NORMAL (3), each with provenance \<^verbatim>\<open>auto\<close>; admitting ``hi'' with the manual
  priority 1 gives URGENT with provenance \<^verbatim>\<open>manual\<close>. This holds in every state of the
  queue, for every sender and clock reading.
\<close>

theorem admit_detection_examples:
  "priority (fst (add_message now ''this is urgent!!!'' usr None s)) = 1
   \<and> priority_name (fst (add_message now ''this is urgent!!!'' usr None s)) = ''URGENT''
   \<and> detection_method (fst (add_message now ''this is urgent!!!'' usr None s)) = ''auto''
   \<and> priority (fst (add_message now ''PLEASE REVIEW NOW'' usr None s)) = 2
   \<and> priority_name (fst (add_message now ''PLEASE REVIEW NOW'' usr None s)) = ''HIGH''
   \<and> priority (fst (add_message now ''hello @bob'' usr None s)) = 2
   \<and> priority_name (fst (add_message now ''hello @bob'' usr None s)) = ''HIGH''
   \<and> priority (fst (add_message now ''hi'' usr None s)) = 3
   \<and> priority_name (fst (add_message now ''hi'' usr None s)) = ''NORMAL''
   \<and> detection_method (fst (add_message now ''hi'' usr None s)) = ''auto''
   \<and> priority (fst (add_message now ''hi'' usr (Some 1) s)) = 1
   \<and> priority_name (fst (add_message now ''hi'' usr (Some 1) s)) = ''URGENT''
   \<and> detection_method (fst (add_message now ''hi'' usr (Some 1) s)) = ''manual''"
  by (simp add: add_message_def Let_def get_priority_name_def detect_urgent_text
      detect_caps_text detect_mention_text detect_plain_text)

section \<open>Batches\<close>






section \<open>Sequence numbers\<close>

lemma add_message_counter [simp]:
  "message_counter (snd (add_message now message usr mp s)) = message_counter s + 1"
  by (simp add: add_message_def Let_def split: prod.splits)

lemma add_message_obj_counter [simp]:
  "counter (fst (add_message now message usr mp s)) = message_counter s + 1"
  by (simp add: add_message_def Let_def split: prod.splits)

lemma get_next_message_counter [simp]:
  "message_counter (snd (get_next_message s)) = message_counter s"
  by (simp add: get_next_message_def split: sum.splits prod.splits)

lemma clear_queue_counter [simp]:
  "message_counter (snd (clear_queue s)) = message_counter s"
  by (simp add: clear_queue_def)

lemma pmq_step_Add:
  "pmq_step (Add now message usr mp) s =
     ([fst (add_message now message usr mp s)], snd (add_message now message usr mp s))"
  by (simp add: case_prod_beta)

lemma run_ops_Cons:
  "run_ops (x # xs) s =
     (fst (pmq_step x s) @ fst (run_ops xs (snd (pmq_step x s))),
      snd (run_ops xs (snd (pmq_step x s))))"
  by (simp add: case_prod_beta)

lemma pmq_step_counter:
  "x \<noteq> ClearAll \<Longrightarrow>
     message_counter (snd (pmq_step x s)) = message_counter s + int (length (fst (pmq_step x s)))"
  by (cases x) (simp_all add: pmq_step_Add del: pmq_step.simps(1))

lemma pmq_step_counters:
  "map counter (fst (pmq_step x s)) =
     [message_counter s + 1 .. message_counter s + int (length (fst (pmq_step x s)))]"
  by (cases x) (simp_all add: pmq_step_Add del: pmq_step.simps(1))

lemma upto_append:
  "(0::int) \<le> n \<Longrightarrow> 0 \<le> m \<Longrightarrow>
     [c + 1 .. c + (n + m)] = [c + 1 .. c + n] @ [c + n + 1 .. c + (n + m)]"
  by (cases "n = 0") (auto intro: upto_split2)

lemma run_ops_counters:
  "ClearAll \<notin> set xs \<Longrightarrow>
     map counter (fst (run_ops xs s)) =
       [message_counter s + 1 .. message_counter s + int (length (fst (run_ops xs s)))]
     \<and> message_counter (snd (run_ops xs s)) = message_counter s + int (length (fst (run_ops xs s)))"
proof (induction xs arbitrary: s)
  case Nil
  then show ?case by simp
next
  case (Cons x xs)
  let ?s' = "snd (pmq_step x s)"
  let ?n = "int (length (fst (pmq_step x s)))"
  let ?m = "int (length (fst (run_ops xs ?s')))"
  from Cons.prems have x: "x \<noteq> ClearAll" and xs: "ClearAll \<notin> set xs" by auto
  have c: "message_counter ?s' = message_counter s + ?n" by (rule pmq_step_counter [OF x])
  have ih: "map counter (fst (run_ops xs ?s')) =
       [message_counter ?s' + 1 .. message_counter ?s' + ?m]"
    and ih2: "message_counter (snd (run_ops xs ?s')) = message_counter ?s' + ?m"
    using Cons.IH [OF xs, of ?s'] by auto
  have "[message_counter s + 1 .. message_counter s + (?n + ?m)] =
        [message_counter s + 1 .. message_counter s + ?n]
        @ [message_counter s + ?n + 1 .. message_counter s + (?n + ?m)]"
    by (rule upto_append) auto
  then show ?case
    unfolding run_ops_Cons using ih ih2 c pmq_step_counters [of x s]
    by (simp add: add.assoc)
qed


text \<open>
  C3, as stated, fails: \<^verbatim>\<open>clear_all\<close> sets \<^verbatim>\<open>message_counter\<close> back to 0. Admitting
  ``a'', calling \<^verbatim>\<open>clear_all\<close> and admitting ``b'' gives both messages the counter 1.
\<close>

theorem counter_reused_after_clear_all:
  "map counter (fst (run_ops [Add 0 ''a'' ''u'' None, ClearAll, Add 1 ''b'' ''u'' None]
      (fresh_pmq 1000))) = [1, 1]
   \<and> map msg_text (fst (run_ops [Add 0 ''a'' ''u'' None, ClearAll, Add 1 ''b'' ''u'' None]
      (fresh_pmq 1000))) = [''a'', ''b'']"
  by (simp add: add_message_def fresh_pmq_def clear_all_def Let_def case_prod_beta)

text \<open>
  C3, amended. For every sequence of operations that does not call \<^verbatim>\<open>clear_all\<close>, from
  every state: the counters given to the admitted messages are the successive integers
  that follow the \<^verbatim>\<open>message_counter\<close> of the state, so they are strictly increasing in
  admission order and no value is given twice. \<^verbatim>\<open>clear_all\<close> sets the counter to 0.
\<close>

theorem counters_increase_without_clear_all:
  assumes "ClearAll \<notin> set xs"
  shows "map counter (fst (run_ops xs s)) =
           [message_counter s + 1 .. message_counter s + int (length (fst (run_ops xs s)))]
         \<and> sorted_wrt (<) (map counter (fst (run_ops xs s)))
         \<and> distinct (map counter (fst (run_ops xs s)))
         \<and> message_counter (snd (clear_all s)) = 0"
proof -
  have eq: "map counter (fst (run_ops xs s)) =
           [message_counter s + 1 .. message_counter s + int (length (fst (run_ops xs s)))]"
    using run_ops_counters [OF assms] by simp
  have "sorted_wrt (<) (map counter (fst (run_ops xs s)))"
    by (subst eq) (rule sorted_wrt_upto)
  moreover have "distinct (map counter (fst (run_ops xs s)))"
    by (subst eq) (rule distinct_upto)
  moreover have "message_counter (snd (clear_all s)) = 0"
    by (simp add: clear_all_def)
  ultimately show ?thesis using eq by simp
qed

theorem counters_increase_without_clear_all_witness:
  "map counter (fst (run_ops [Add 0 ''a'' ''u'' None, Next, Add 1 ''b'' ''u'' None]
      (fresh_pmq 1000))) = [1, 2]"
  using counters_increase_without_clear_all
    [of "[Add 0 ''a'' ''u'' None, Next, Add 1 ''b'' ''u'' None]" "fresh_pmq 1000"]
  by (simp add: fresh_pmq_def case_prod_beta upto_rec1)

section \<open>The history buffer\<close>

lemma foldl_cq_enqueue:
  "foldl cq_enqueue h ms = h\<lparr>cq_queue := foldl (deque_append (max_size h)) (cq_queue h) ms\<rparr>"
  by (induction ms arbitrary: h) (simp_all add: cq_enqueue_def)

lemma pmq_step_history:
  "x \<noteq> ClearAll \<Longrightarrow>
     history (snd (pmq_step x s)) = foldl cq_enqueue (history s) (fst (pmq_step x s))"
  by (cases x)
     (simp_all add: add_message_def get_next_message_def clear_queue_def Let_def case_prod_beta
        split: sum.splits)

lemma run_ops_history:
  "ClearAll \<notin> set xs \<Longrightarrow>
     history (snd (run_ops xs s)) = foldl cq_enqueue (history s) (fst (run_ops xs s))"
proof (induction xs arbitrary: s)
  case Nil
  then show ?case by simp
next
  case (Cons x xs)
  then have x: "x \<noteq> ClearAll" and xs: "ClearAll \<notin> set xs" by auto
  show ?case
    unfolding run_ops_Cons using Cons.IH [OF xs] pmq_step_history [OF x] by simp
qed


lemma deque_append_length:
  "length q \<le> cap \<Longrightarrow> length (deque_append cap q x) \<le> cap"
  by (cases q) (auto simp: deque_append_def)

lemma pmq_step_history_ok:
  "length (cq_queue (history s)) \<le> max_size (history s) \<Longrightarrow>
     length (cq_queue (history (snd (pmq_step x s)))) \<le> max_size (history (snd (pmq_step x s)))
     \<and> max_size (history (snd (pmq_step x s))) = max_size (history s)"
  by (cases x)
     (simp_all add: add_message_def get_next_message_def clear_queue_def clear_all_def
        cq_clear_def cq_enqueue_def deque_append_length Let_def case_prod_beta split: sum.splits)

lemma run_ops_history_ok:
  "length (cq_queue (history s)) \<le> max_size (history s) \<Longrightarrow>
     length (cq_queue (history (snd (run_ops xs s)))) \<le> max_size (history (snd (run_ops xs s)))
     \<and> max_size (history (snd (run_ops xs s))) = max_size (history s)"
proof (induction xs arbitrary: s)
  case Nil
  then show ?case by simp
next
  case (Cons x xs)
  from pmq_step_history_ok [OF Cons.prems, of x] Cons.IH [of "snd (pmq_step x s)"]
  show ?case unfolding run_ops_Cons by simp
qed

lemma deque_append_drop:
  assumes "length q \<le> cap"
  shows "deque_append cap q x = drop (Suc (length q) - cap) (q @ [x])"
proof (cases "cap = 0")
  case True
  with assms show ?thesis by (simp add: deque_append_def)
next
  case False
  show ?thesis
  proof (cases "length q = cap")
    case True
    with False show ?thesis by (cases q) (simp_all add: deque_append_def)
  next
    case ne: False
    with assms have "Suc (length q) - cap = 0" by simp
    with ne False show ?thesis by (simp add: deque_append_def)
  qed
qed

lemma deque_append_fold:
  "length q \<le> cap \<Longrightarrow>
     foldl (deque_append cap) q xs = drop (length q + length xs - cap) (q @ xs)"
proof (induction xs arbitrary: q)
  case Nil
  then show ?case by simp
next
  case (Cons x xs)
  define d where "d = Suc (length q) - cap"
  define q' where "q' = deque_append cap q x"
  have q': "q' = drop d (q @ [x])"
    unfolding q'_def d_def by (rule deque_append_drop [OF Cons.prems])
  have len: "length q' = Suc (length q) - d" by (simp add: q')
  have le: "length q' \<le> cap" using Cons.prems by (simp add: len d_def)
  have dle: "d \<le> Suc (length q)" by (simp add: d_def)
  then have "d - length q = 0 \<or> d - length q = Suc 0" by arith
  then have app: "q' @ xs = drop d (q @ x # xs)" by (auto simp: q')
  have "foldl (deque_append cap) q (x # xs) = foldl (deque_append cap) q' xs"
    by (simp add: q'_def)
  also have "\<dots> = drop (length q' + length xs - cap) (q' @ xs)"
    by (rule Cons.IH [OF le])
  also have "\<dots> = drop (length q' + length xs - cap + d) (q @ x # xs)"
    by (simp only: app drop_drop)
  also have "length q' + length xs - cap + d = length q + length (x # xs) - cap"
    using Cons.prems by (simp add: len d_def)
  finally show ?case .
qed


text \<open>
  C5. The queue is created with history capacity \<open>cap\<close>. After any sequence of operations
  the history holds at most \<open>cap\<close> entries. After a sequence without \<^verbatim>\<open>clear_all\<close> that
  admitted the messages \<open>objs\<close>, in this order, the history is \<open>objs\<close> without its first
  \<open>length objs - cap\<close> elements, in admission order, and the admitted messages are pairwise
  distinct; so after \<open>cap + k\<close> admissions the history has exactly \<open>cap\<close> entries, and none
  of the \<open>k\<close> oldest messages is among them.
\<close>

theorem history_keeps_most_recent:
  assumes "ClearAll \<notin> set xs" and "run_ops xs (fresh_pmq cap) = (objs, s)"
  shows "get_history s = drop (length objs - cap) objs
         \<and> distinct objs
         \<and> (\<forall>k. length objs = cap + k \<longrightarrow>
               length (get_history s) = cap \<and> get_history s = drop k objs
               \<and> set (take k objs) \<inter> set (get_history s) = {})
         \<and> length (get_history (snd (run_ops ys (fresh_pmq cap)))) \<le> cap"
proof -
  have objs: "objs = fst (run_ops xs (fresh_pmq cap))" and s: "s = snd (run_ops xs (fresh_pmq cap))"
    using assms(2) by simp_all
  have "history s = foldl cq_enqueue (history (fresh_pmq cap)) objs"
    unfolding objs s by (rule run_ops_history [OF assms(1)])
  then have "get_history s = foldl (deque_append cap) [] objs"
    by (simp add: foldl_cq_enqueue get_history_def get_all_def fresh_pmq_def)
  then have hist: "get_history s = drop (length objs - cap) objs"
    by (simp add: deque_append_fold)
  have "map counter objs =
      [message_counter (fresh_pmq cap) + 1 .. message_counter (fresh_pmq cap) + int (length objs)]"
    using run_ops_counters [OF assms(1), of "fresh_pmq cap"] objs by simp
  then have "distinct (map counter objs)"
    by (simp only: distinct_upto)
  then have dist: "distinct objs" by (simp add: distinct_map)
  have full: "length (get_history s) = cap \<and> get_history s = drop k objs
               \<and> set (take k objs) \<inter> set (get_history s) = {}"
    if "length objs = cap + k" for k
  proof -
    from that have k: "length objs - cap = k" by simp
    have "set (take k objs) \<inter> set (drop k objs) = {}"
      by (rule set_take_disj_set_drop_if_distinct [OF dist]) simp
    with that show ?thesis by (simp add: hist k)
  qed
  have "length (get_history (snd (run_ops ys (fresh_pmq cap)))) \<le> cap"
    using run_ops_history_ok [of "fresh_pmq cap" ys]
    by (simp add: get_history_def get_all_def fresh_pmq_def)
  with hist dist full show ?thesis by blast
qed

theorem history_keeps_most_recent_witness:
  "map msg_text (get_history (snd (run_ops
      [Add 0 ''a'' ''u'' None, Add 1 ''b'' ''u'' None, Add 2 ''c'' ''u'' None] (fresh_pmq 2))))
     = [''b'', ''c'']"
  using history_keeps_most_recent
    [of "[Add 0 ''a'' ''u'' None, Add 1 ''b'' ''u'' None, Add 2 ''c'' ''u'' None]" 2
        "fst (run_ops [Add 0 ''a'' ''u'' None, Add 1 ''b'' ''u'' None, Add 2 ''c'' ''u'' None]
           (fresh_pmq 2))"
        "snd (run_ops [Add 0 ''a'' ''u'' None, Add 1 ''b'' ''u'' None, Add 2 ''c'' ''u'' None]
           (fresh_pmq 2))"]
  by (simp add: add_message_def Let_def case_prod_beta)

section \<open>User names\<close>

lemma html_escape_Nil [simp]: "html_escape [] = []"
  by (simp add: html_escape_def replace_char_def)

lemma username_blank:
  "strip raw = [] \<Longrightarrow> sanitized_username (validate_username raw) = ''Anonymous''"
  by (simp add: validate_username_def Let_def) code_simp





section \<open>Backoff and drop in the retry queue\<close>

lemma rq_step_max_retries [simp]: "max_retries (rq_step x q) = max_retries q"
  by (cases x)
     (auto simp: rq_enqueue_def process_def get_ready_message_def Let_def
        split: list.splits sum.splits prod.splits option.splits if_splits)






section \<open>Rejected submissions\<close>


lemma emit_keeps_queues:
  "message_system (snd (emit e ev h)) = message_system h
   \<and> batch_queue (snd (emit e ev h)) = batch_queue h
   \<and> retry_queue (snd (emit e ev h)) = retry_queue h"
  by (simp add: emit_def)

lemma emit_ok:
  "\<not> emit_raises e (emits h) \<Longrightarrow>
     emit e ev h = (Inr (), h\<lparr>emits := Suc (emits h), emitted := emitted h @ [ev]\<rparr>)"
  by (simp add: emit_def)






section \<open>Manual priorities outside 1 to 4\<close>







section \<open>The retry drain\<close>

lemma retry_enqueue_appends:
  "retry_enqueue e msg h =
     (Inr (), h\<lparr>ticks := Suc (ticks h),
                retry_queue := (retry_queue h)\<lparr>rq_queue :=
                  rq_queue (retry_queue h) @ [(msg, 0, clock e (ticks h) + 1)]\<rparr>\<rparr>)"
  by (simp add: retry_enqueue_def time_time_def rq_enqueue_def pow2_def)

text \<open>
  C2. \<^verbatim>\<open>process\<close> returns the message without its attempt count, and
  \<^verbatim>\<open>process_retry_queue\<close> calls \<^verbatim>\<open>enqueue(retry_msg)\<close> with the default count 0
  (\<open>retry_enqueue_appends\<close>). With one entry of attempt count 0 whose deadline has passed,
  a clock that reads 10 and a transport that raises, the drain leaves the entry with attempt
  count 0 and deadline \<open>10 + 2 ^ 0 = 11\<close>, where an incremented count would give count 1
  and deadline 12.
\<close>

theorem retry_drain_keeps_attempt_count:
  "process_retry_queue
     \<lparr>clock = \<lambda>n. 10, emit_raises = \<lambda>n. True, format_timestamp = \<lambda>t. []\<rparr>
     ((ChatSocketHandlers (fresh_pmq 1000))
        \<lparr>retry_queue := \<lparr>rq_queue = [(m, 0, 0)], max_retries = 5\<rparr>\<rparr>)
   = Some (Inr (),
       (ChatSocketHandlers (fresh_pmq 1000))
         \<lparr>retry_queue := \<lparr>rq_queue = [(m, 0, 11)], max_retries = 5\<rparr>,
          ticks := 3, emits := 1\<rparr>)"
  apply (subst process_retry_queue.simps)
  apply (simp add: retry_process_def time_time_def process_def get_ready_message_def
      emit_def retry_enqueue_appends ChatSocketHandlers_def)
  apply (subst process_retry_queue.simps)
  apply (simp add: retry_process_def time_time_def process_def get_ready_message_def)
  done

section \<open>Correctness of the heap operations\<close>

lemma item_le_refl [simp]: "item_le a a"
  by (simp add: item_le_def item_lt_def)

lemma item_le_trans: "item_le a b \<Longrightarrow> item_le b c \<Longrightarrow> item_le a c"
  by (auto simp: item_le_def item_lt_def)

lemma item_lt_le: "item_lt a b \<Longrightarrow> item_le a b"
  by (auto simp: item_le_def item_lt_def)

lemma item_lt_le_trans: "item_lt a b \<Longrightarrow> item_le b c \<Longrightarrow> item_le a c"
  by (auto simp: item_le_def item_lt_def)

lemma item_le_total: "\<not> item_lt a b \<Longrightarrow> item_le b a"
  by (simp add: item_le_def)

lemma parent_less: "0 < (i::nat) \<Longrightarrow> (i - 1) div 2 < i"
  by arith

lemma heap_butD:
  "heap_but h pos \<Longrightarrow> 0 < i \<Longrightarrow> i < length h \<Longrightarrow> i \<noteq> pos \<Longrightarrow> (i - 1) div 2 \<noteq> pos \<Longrightarrow>
     item_le (h ! ((i - 1) div 2)) (h ! i)"
  by (simp add: heap_but_def)

lemma children_geD:
  "children_ge h pos x \<Longrightarrow> 0 < c \<Longrightarrow> c < length h \<Longrightarrow> (c - 1) div 2 = pos \<Longrightarrow>
     item_le x (h ! c)"
  by (simp add: children_ge_def)

lemma mset_update_twice:
  assumes "i < length h" "j < length h" "i \<noteq> j"
  shows "mset (h[i := h ! j, j := x]) = mset (h[i := x])"
proof -
  have "mset (h[i := h ! j, j := x])
      = add_mset x (mset (h[i := h ! j]) - {#h[i := h ! j] ! j#})"
    using assms by (simp add: mset_update)
  also have "\<dots> = add_mset x (add_mset (h ! j) (mset h - {#h ! i#}) - {#h ! j#})"
    using assms by (simp add: mset_update)
  also have "\<dots> = add_mset x (mset h - {#h ! i#})"
    by simp
  also have "\<dots> = mset (h[i := x])"
    using assms by (simp add: mset_update)
  finally show ?thesis .
qed

lemma siftdown_loop_correct:
  "pos < length h \<Longrightarrow> heap_but h pos \<Longrightarrow> children_ge h pos newitem \<Longrightarrow>
   (0 < pos \<longrightarrow> children_ge h pos (h ! ((pos - 1) div 2))) \<Longrightarrow>
     is_heap (siftdown_loop h 0 pos newitem)
     \<and> mset (siftdown_loop h 0 pos newitem) = mset (h[pos := newitem])"
proof (induction h "0::nat" pos newitem rule: siftdown_loop.induct)
  case (1 heap pos newitem)
  let ?pp = "(pos - 1) div 2"
  show ?case
  proof (cases "0 < pos \<and> item_lt newitem (heap ! ?pp)")
    case True
    then have pos: "0 < pos" and lt: "item_lt newitem (heap ! ?pp)" by auto
    have pp: "?pp < pos" using pos by arith
    let ?h = "heap[pos := heap ! ?pp]"
    have len: "?pp < length ?h" using pp "1.prems"(1) by simp
    have hb: "heap_but ?h ?pp"
      unfolding heap_but_def
    proof (intro allI impI)
      fix i assume i: "0 < i \<and> i < length ?h \<and> i \<noteq> ?pp \<and> (i - 1) div 2 \<noteq> ?pp"
      then have ipos: "i \<noteq> pos" by auto
      show "item_le (?h ! ((i - 1) div 2)) (?h ! i)"
      proof (cases "(i - 1) div 2 = pos")
        case True
        from "1.prems"(4) pos have "children_ge heap pos (heap ! ?pp)" by simp
        from children_geD [OF this _ _ True] i have "item_le (heap ! ?pp) (heap ! i)"
          by simp
        with True ipos i "1.prems"(1) show ?thesis by simp
      next
        case False
        from heap_butD [OF "1.prems"(2) _ _ ipos False] i
        have "item_le (heap ! ((i - 1) div 2)) (heap ! i)" by simp
        with False ipos show ?thesis by simp
      qed
    qed
    have edge_pp: "item_le (heap ! ?pp) (heap ! c)"
      if c: "0 < c" "c < length heap" "c \<noteq> pos" "(c - 1) div 2 = ?pp" for c
    proof -
      have "(c - 1) div 2 \<noteq> pos" using c(4) pp by simp
      from heap_butD [OF "1.prems"(2) c(1,2,3) this] c(4) show ?thesis by simp
    qed
    have cg: "children_ge ?h ?pp newitem"
      unfolding children_ge_def
    proof (intro allI impI)
      fix c assume c: "0 < c \<and> c < length ?h \<and> (c - 1) div 2 = ?pp"
      show "item_le newitem (?h ! c)"
      proof (cases "c = pos")
        case True
        with "1.prems"(1) lt show ?thesis by (simp add: item_lt_le)
      next
        case False
        with c edge_pp [of c] have "item_le (heap ! ?pp) (heap ! c)" by simp
        with lt have "item_le newitem (heap ! c)" by (rule item_lt_le_trans)
        with False show ?thesis by simp
      qed
    qed
    have gp: "0 < ?pp \<longrightarrow> children_ge ?h ?pp (?h ! ((?pp - 1) div 2))"
    proof
      assume p0: "0 < ?pp"
      have ppp: "(?pp - 1) div 2 < ?pp" using p0 by arith
      have e1: "item_le (heap ! ((?pp - 1) div 2)) (heap ! ?pp)"
      proof (rule heap_butD [OF "1.prems"(2) p0])
        show "?pp < length heap" using pp "1.prems"(1) by simp
        show "?pp \<noteq> pos" using pp by simp
        show "(?pp - 1) div 2 \<noteq> pos" using pp ppp by simp
      qed
      show "children_ge ?h ?pp (?h ! ((?pp - 1) div 2))"
        unfolding children_ge_def
      proof (intro allI impI)
        fix c assume c: "0 < c \<and> c < length ?h \<and> (c - 1) div 2 = ?pp"
        show "item_le (?h ! ((?pp - 1) div 2)) (?h ! c)"
        proof (cases "c = pos")
          case True
          with "1.prems"(1) e1 pp ppp show ?thesis by simp
        next
          case False
          with c edge_pp [of c] have "item_le (heap ! ?pp) (heap ! c)" by simp
          with e1 have "item_le (heap ! ((?pp - 1) div 2)) (heap ! c)" by (rule item_le_trans)
          with False pp ppp show ?thesis by simp
        qed
      qed
    qed
    from "1.hyps" [OF pos refl refl lt len hb cg gp]
    have ih: "is_heap (siftdown_loop ?h 0 ?pp newitem)"
      and ms: "mset (siftdown_loop ?h 0 ?pp newitem) = mset (?h[?pp := newitem])"
      by auto
    have eq: "siftdown_loop heap 0 pos newitem = siftdown_loop ?h 0 ?pp newitem"
      using pos lt by (subst siftdown_loop.simps) (simp add: Let_def)
    have "mset (?h[?pp := newitem]) = mset (heap[pos := newitem])"
      using "1.prems"(1) pp by (intro mset_update_twice) auto
    with ih ms eq show ?thesis by simp
  next
    case False
    then have eq: "siftdown_loop heap 0 pos newitem = heap[pos := newitem]"
      by (subst siftdown_loop.simps) (auto simp: Let_def)
    have "is_heap (heap[pos := newitem])"
      unfolding is_heap_def
    proof (intro allI impI)
      fix i assume i: "0 < i \<and> i < length (heap[pos := newitem])"
      let ?h = "heap[pos := newitem]"
      show "item_le (?h ! ((i - 1) div 2)) (?h ! i)"
      proof (cases "i = pos")
        case True
        with i False have "item_le (heap ! ?pp) newitem" by (simp add: item_le_def)
        moreover have "?pp \<noteq> pos" using True i by arith
        ultimately show ?thesis using True "1.prems"(1) by simp
      next
        case ne: False
        show ?thesis
        proof (cases "(i - 1) div 2 = pos")
          case True
          from children_geD [OF "1.prems"(3) _ _ True] i have "item_le newitem (heap ! i)"
            by simp
          with True ne "1.prems"(1) show ?thesis by simp
        next
          case False
          from heap_butD [OF "1.prems"(2) _ _ ne False] i
          have "item_le (heap ! ((i - 1) div 2)) (heap ! i)" by simp
          with False ne show ?thesis by simp
        qed
      qed
    qed
    with eq show ?thesis by simp
  qed
qed


lemma siftdown_loop_length:
  "pos < length h \<Longrightarrow> heap_but h pos \<Longrightarrow> children_ge h pos newitem \<Longrightarrow>
   (0 < pos \<longrightarrow> children_ge h pos (h ! ((pos - 1) div 2))) \<Longrightarrow>
     length (siftdown_loop h 0 pos newitem) = length h"
  using siftdown_loop_correct [of pos h newitem] mset_eq_length [of "siftdown_loop h 0 pos newitem" "h[pos := newitem]"]
  by simp

lemma is_heap_root_le:
  "is_heap h \<Longrightarrow> i < length h \<Longrightarrow> item_le (h ! 0) (h ! i)"
proof (induction i rule: less_induct)
  case (less i)
  show ?case
  proof (cases "i = 0")
    case True
    then show ?thesis by simp
  next
    case False
    then have p: "(i - 1) div 2 < i" by arith
    with less.prems have "item_le (h ! 0) (h ! ((i - 1) div 2))"
      by (intro less.IH) auto
    moreover have "item_le (h ! ((i - 1) div 2)) (h ! i)"
      using less.prems False by (simp add: is_heap_def)
    ultimately show ?thesis by (rule item_le_trans)
  qed
qed

lemma is_heap_heap_but: "is_heap h \<Longrightarrow> heap_but h pos"
  by (simp add: is_heap_def heap_but_def)

lemma is_heapD:
  "is_heap h \<Longrightarrow> 0 < i \<Longrightarrow> i < length h \<Longrightarrow> item_le (h ! ((i - 1) div 2)) (h ! i)"
  by (simp add: is_heap_def)

lemma heap_but_pop:
  assumes "is_heap h"
  shows "heap_but ((butlast h)[0 := x]) 0"
  unfolding heap_but_def
proof (intro allI impI)
  let ?h = "(butlast h)[0 := x]"
  fix i assume i: "0 < i \<and> i < length ?h \<and> i \<noteq> 0 \<and> (i - 1) div 2 \<noteq> 0"
  then have il: "i < length h - 1" by simp
  then have pl: "(i - 1) div 2 < length h - 1" by arith
  have "i < length h" using il by simp
  from is_heapD [OF assms _ this] i have "item_le (h ! ((i - 1) div 2)) (h ! i)" by simp
  with i il pl show "item_le (?h ! ((i - 1) div 2)) (?h ! i)" by (simp add: nth_butlast)
qed

lemma heap_but_update: "heap_but h pos \<Longrightarrow> heap_but (h[pos := x]) pos"
  by (simp add: heap_but_def)

lemma heappush_correct:
  assumes "is_heap h"
  shows "is_heap (heappush h item) \<and> mset (heappush h item) = add_mset item (mset h)"
proof -
  let ?h = "h @ [item]"
  have pos: "length h < length ?h" by simp
  have hb: "heap_but ?h (length h)"
    unfolding heap_but_def
  proof (intro allI impI)
    fix i assume i: "0 < i \<and> i < length ?h \<and> i \<noteq> length h \<and> (i - 1) div 2 \<noteq> length h"
    then have il: "i < length h" by simp
    then have pl: "(i - 1) div 2 < length h" by arith
    from assms i il have "item_le (h ! ((i - 1) div 2)) (h ! i)" by (simp add: is_heap_def)
    with il pl show "item_le (?h ! ((i - 1) div 2)) (?h ! i)" by (simp add: nth_append)
  qed
  have leaf: "children_ge ?h (length h) x" for x
    unfolding children_ge_def
  proof (intro allI impI)
    fix c assume c: "0 < c \<and> c < length ?h \<and> (c - 1) div 2 = length h"
    then have False by (simp, arith)
    then show "item_le x (?h ! c)" ..
  qed
  have "heappush h item = siftdown_loop ?h 0 (length h) item"
    by (simp add: heappush_def siftdown_def)
  with siftdown_loop_correct [OF pos hb leaf] leaf show ?thesis by simp
qed

lemma siftup_loop_correct:
  "pos < length h \<Longrightarrow> heap_but h pos \<Longrightarrow>
   (0 < pos \<longrightarrow> children_ge h pos (h ! ((pos - 1) div 2))) \<Longrightarrow>
   childpos = 2 * pos + 1 \<Longrightarrow> endpos = length h \<Longrightarrow>
     (case siftup_loop h endpos pos childpos of
        (h', pos') \<Rightarrow>
          pos' < length h' \<and> length h' = length h \<and> heap_but h' pos'
          \<and> length h' \<le> 2 * pos' + 1
          \<and> (\<forall>x. mset (h'[pos' := x]) = mset (h[pos := x])))"
proof (induction h endpos pos childpos rule: siftup_loop.induct)
  case (1 heap endpos pos childpos)
  show ?case
  proof (cases "childpos < endpos")
    case False
    then have "siftup_loop heap endpos pos childpos = (heap, pos)"
      by (subst siftup_loop.simps) simp
    with False "1.prems" show ?thesis by simp
  next
    case True
    define rightpos where "rightpos = childpos + 1"
    define c where "c = (if rightpos < endpos \<and> \<not> item_lt (heap ! childpos) (heap ! rightpos)
                          then rightpos else childpos)"
    let ?h = "heap[pos := heap ! c]"
    have eq: "siftup_loop heap endpos pos childpos = siftup_loop ?h endpos c (2 * c + 1)"
      using True by (subst siftup_loop.simps) (simp add: Let_def c_def rightpos_def)
    have clen: "c < length heap" using True "1.prems"(5) by (simp add: c_def)
    have cpar: "(c - 1) div 2 = pos" and c0: "0 < c" and cpos: "c \<noteq> pos"
      using "1.prems"(4) by (auto simp: c_def rightpos_def)
    have sib: "item_le (heap ! c) (heap ! i)"
      if i: "0 < i" "i < length heap" "(i - 1) div 2 = pos" for i
    proof -
      from i "1.prems"(4) have "i = childpos \<or> i = rightpos"
        unfolding rightpos_def by arith
      then show ?thesis
      proof
        assume l: "i = childpos"
        show ?thesis
        proof (cases "c = childpos")
          case True
          with l show ?thesis by simp
        next
          case False
          then have "c = rightpos" "\<not> item_lt (heap ! childpos) (heap ! rightpos)"
            by (auto simp: c_def split: if_splits)
          with l show ?thesis by (simp add: item_le_def)
        qed
      next
        assume r: "i = rightpos"
        show ?thesis
        proof (cases "c = rightpos")
          case True
          with r show ?thesis by simp
        next
          case False
          then have "c = childpos" by (simp add: c_def split: if_splits)
          moreover from False r i "1.prems"(5)
          have "item_lt (heap ! childpos) (heap ! rightpos)"
            by (auto simp: c_def split: if_splits)
          ultimately show ?thesis using r by (simp add: item_lt_le)
        qed
      qed
    qed
    have hb: "heap_but ?h c"
      unfolding heap_but_def
    proof (intro allI impI)
      fix i assume i: "0 < i \<and> i < length ?h \<and> i \<noteq> c \<and> (i - 1) div 2 \<noteq> c"
      show "item_le (?h ! ((i - 1) div 2)) (?h ! i)"
      proof (cases "i = pos")
        case True
        with i have p0: "0 < pos" by simp
        with "1.prems"(3) have "children_ge heap pos (heap ! ((pos - 1) div 2))" by simp
        from children_geD [OF this c0 clen cpar]
        have "item_le (heap ! ((pos - 1) div 2)) (heap ! c)" .
        moreover have "(pos - 1) div 2 \<noteq> pos" using p0 by arith
        ultimately show ?thesis using True "1.prems"(1) by simp
      next
        case ne: False
        show ?thesis
        proof (cases "(i - 1) div 2 = pos")
          case True
          with i sib [of i] have "item_le (heap ! c) (heap ! i)" by simp
          with True ne "1.prems"(1) show ?thesis by simp
        next
          case False
          from heap_butD [OF "1.prems"(2) _ _ ne False] i
          have "item_le (heap ! ((i - 1) div 2)) (heap ! i)" by simp
          with False ne show ?thesis by simp
        qed
      qed
    qed
    have gp: "0 < c \<longrightarrow> children_ge ?h c (?h ! ((c - 1) div 2))"
    proof
      show "children_ge ?h c (?h ! ((c - 1) div 2))"
        unfolding children_ge_def
      proof (intro allI impI)
        fix d assume d: "0 < d \<and> d < length ?h \<and> (d - 1) div 2 = c"
        then have dpos: "d \<noteq> pos" using cpar c0 by arith
        have "(d - 1) div 2 \<noteq> pos" using d cpos by simp
        from heap_butD [OF "1.prems"(2) _ _ dpos this] d
        have "item_le (heap ! c) (heap ! d)" by simp
        with dpos cpar "1.prems"(1) show "item_le (?h ! ((c - 1) div 2)) (?h ! d)" by simp
      qed
    qed
    have clen': "c < length ?h" using clen by simp
    have e: "endpos = length ?h" using "1.prems"(5) by simp
    from "1.IH" [OF True rightpos_def c_def clen' hb gp refl e]
    have ih: "case siftup_loop ?h endpos c (2 * c + 1) of
        (h', pos') \<Rightarrow>
          pos' < length h' \<and> length h' = length ?h \<and> heap_but h' pos'
          \<and> length h' \<le> 2 * pos' + 1
          \<and> (\<forall>x. mset (h'[pos' := x]) = mset (?h[c := x]))" .
    have "mset (?h[c := x]) = mset (heap[pos := x])" for x
      using "1.prems"(1) clen cpos by (intro mset_update_twice) auto
    with ih eq show ?thesis by (auto split: prod.splits)
  qed
qed


lemma siftup_correct:
  assumes "h \<noteq> []" and "heap_but h 0"
  shows "is_heap (siftup h 0) \<and> mset (siftup h 0) = mset h"
proof -
  obtain h' pos' where sl: "siftup_loop h (length h) 0 (2 * 0 + 1) = (h', pos')"
    by (cases "siftup_loop h (length h) 0 (2 * 0 + 1)")
  from assms(1) have pos: "0 < length h" by simp
  from siftup_loop_correct [OF pos assms(2) _ refl refl] sl
  have p: "pos' < length h'" and l: "length h' = length h" and hb: "heap_but h' pos'"
    and leaf: "length h' \<le> 2 * pos' + 1"
    and ms: "\<And>x. mset (h'[pos' := x]) = mset (h[0 := x])"
    by auto
  let ?n = "h ! 0"
  let ?h = "h'[pos' := ?n]"
  have p': "pos' < length ?h" using p by simp
  have hb': "heap_but ?h pos'" by (rule heap_but_update [OF hb])
  have cg: "children_ge ?h pos' x" for x
    unfolding children_ge_def
  proof (intro allI impI)
    fix c assume c: "0 < c \<and> c < length ?h \<and> (c - 1) div 2 = pos'"
    with leaf have False by (simp, arith)
    then show "item_le x (?h ! c)" ..
  qed
  have "siftup h 0 = siftdown_loop ?h 0 pos' ?n"
    using sl p by (simp add: siftup_def siftdown_def Let_def)
  with siftdown_loop_correct [OF p' hb' cg] cg ms [of ?n] show ?thesis by simp
qed

lemma heappop_correct:
  assumes "is_heap h" and "h \<noteq> []"
  shows "\<exists>h'. heappop h = Inr (h ! 0, h') \<and> is_heap h'
           \<and> mset h = add_mset (h ! 0) (mset h')
           \<and> (\<forall>y \<in> set h. item_le (h ! 0) y)"
proof -
  have min: "\<forall>y \<in> set h. item_le (h ! 0) y"
    using is_heap_root_le [OF assms(1)] by (metis in_set_conv_nth)
  show ?thesis
  proof (cases "butlast h = []")
    case True
    with assms(2) have h: "h = [last h]" by (metis append_butlast_last_id append_Nil)
    then have "h ! 0 = last h" by (metis nth_Cons_0)
    with True assms(2) h min show ?thesis
      by (auto simp: heappop_def Let_def is_heap_def)
  next
    case False
    let ?b = "(butlast h)[0 := last h]"
    have ne: "?b \<noteq> []" using False by simp
    from siftup_correct [OF ne heap_but_pop [OF assms(1)]]
    have ih: "is_heap (siftup ?b 0)" and ms: "mset (siftup ?b 0) = mset ?b" by auto
    have bl: "0 < length (butlast h)" using False by (metis length_greater_0_conv)
    then have b0: "butlast h ! 0 = h ! 0" by (rule nth_butlast)
    have "mset h = add_mset (last h) (mset (butlast h))"
      using assms(2) by (metis append_butlast_last_id mset_append add_mset_add_single mset.simps union_mset_add_mset_right add.right_neutral)
    moreover have "mset ?b = add_mset (last h) (mset (butlast h) - {#butlast h ! 0#})"
      by (rule mset_update [OF bl])
    moreover have "butlast h ! 0 \<in># mset (butlast h)"
      using nth_mem [OF bl] by simp
    ultimately have "mset h = add_mset (h ! 0) (mset ?b)"
      by (simp add: b0)
    with ih ms min False assms(2) b0 show ?thesis
      by (simp add: heappop_def Let_def)
  qed
qed

section \<open>Delivery order\<close>

lemma item_le_item_of: "item_le (item_of a) (item_of b) = msg_le a b"
  by (auto simp: item_le_def item_lt_def item_of_def msg_le_def)

lemma item_of_inverse [simp]: "snd (snd (item_of m)) = m"
  by (simp add: item_of_def)

lemma pmq_ok_fresh: "pmq_ok (fresh_pmq cap)"
  by (simp add: pmq_ok_def fresh_pmq_def is_heap_def)

lemma distinct_map_mset:
  "mset xs = mset ys \<Longrightarrow> distinct (map f xs) = distinct (map f ys)"
proof -
  assume "mset xs = mset ys"
  then have "mset (map f xs) = mset (map f ys)" by simp
  then show ?thesis by (rule mset_eq_imp_distinct_iff)
qed

lemma add_message_queue:
  "priority_queue (snd (add_message now message usr mp s))
     = heappush (priority_queue s) (item_of (fst (add_message now message usr mp s)))"
  by (simp add: add_message_def Let_def item_of_def split: prod.splits)

lemma add_message_ok:
  assumes "pmq_ok s"
  shows "pmq_ok (snd (add_message now message usr mp s))
         \<and> mset (priority_queue (snd (add_message now message usr mp s)))
             = add_mset (item_of (fst (add_message now message usr mp s))) (mset (priority_queue s))"
proof -
  let ?m = "fst (add_message now message usr mp s)"
  let ?s = "snd (add_message now message usr mp s)"
  let ?h = "priority_queue s"
  from assms have h: "is_heap ?h" by (simp add: pmq_ok_def)
  from heappush_correct [OF h, of "item_of ?m"]
  have h': "is_heap (priority_queue ?s)"
    and ms: "mset (priority_queue ?s) = mset (item_of ?m # ?h)"
    by (simp_all add: add_message_queue)
  have set: "set (priority_queue ?s) = insert (item_of ?m) (set ?h)"
    using mset_eq_setD [OF ms] by simp
  have cnt: "counter ?m = message_counter s + 1" by simp
  have mc: "message_counter ?s = message_counter s + 1" by simp
  have c1: "\<forall>x \<in> set (priority_queue ?s). x = item_of (snd (snd x))"
    using assms by (auto simp: set pmq_ok_def)
  have c3: "\<forall>x \<in> set (priority_queue ?s). fst (snd x) \<le> message_counter ?s"
    using assms by (auto simp: set pmq_ok_def mc cnt item_of_def)
  have "fst (snd (item_of ?m)) \<notin> (\<lambda>x. fst (snd x)) ` set ?h"
    using assms by (auto simp: pmq_ok_def item_of_def cnt)
  with assms have "distinct (map (\<lambda>x. fst (snd x)) (item_of ?m # ?h))"
    by (simp add: pmq_ok_def)
  then have c2: "distinct (map (\<lambda>x. fst (snd x)) (priority_queue ?s))"
    by (simp only: distinct_map_mset [OF ms])
  from h' c1 c2 c3 ms show ?thesis by (simp add: pmq_ok_def)
qed

lemma get_next_message_empty:
  "priority_queue s = [] \<Longrightarrow> get_next_message s = (None, s)"
  by (simp add: get_next_message_def)

lemma get_next_message_ok:
  assumes "pmq_ok s" and "priority_queue s \<noteq> []"
  shows "\<exists>m s'. get_next_message s = (Some m, s') \<and> pmq_ok s'
           \<and> mset (priority_queue s) = add_mset (item_of m) (mset (priority_queue s'))
           \<and> (\<forall>y \<in> set (priority_queue s). item_le (item_of m) y)
           \<and> history s' = history s \<and> message_counter s' = message_counter s"
proof -
  let ?h = "priority_queue s"
  from assms have h: "is_heap ?h" by (simp add: pmq_ok_def)
  from heappop_correct [OF h assms(2)] obtain h' where
    pop: "heappop ?h = Inr (?h ! 0, h')" and h': "is_heap h'"
    and ms: "mset ?h = add_mset (?h ! 0) (mset h')"
    and min: "\<forall>y \<in> set ?h. item_le (?h ! 0) y"
    by blast
  let ?m = "snd (snd (?h ! 0))"
  let ?s = "s\<lparr>priority_queue := h'\<rparr>"
  have "?h ! 0 \<in> set ?h" using assms(2) by simp
  with assms(1) have root: "?h ! 0 = item_of ?m" by (simp add: pmq_ok_def)
  have g: "get_next_message s = (Some ?m, ?s)"
    using assms(2) pop by (simp add: get_next_message_def split: prod.splits)
  have ms': "mset ?h = mset (?h ! 0 # h')" using ms by simp
  have sub: "set h' \<subseteq> set ?h" using mset_eq_setD [OF ms'] by auto
  have "distinct (map (\<lambda>x. fst (snd x)) (?h ! 0 # h'))"
    using assms(1) by (simp only: distinct_map_mset [OF ms', symmetric] pmq_ok_def)
  then have d: "distinct (map (\<lambda>x. fst (snd x)) h')" by simp
  have ok: "pmq_ok ?s"
    using assms(1) h' d sub by (auto simp: pmq_ok_def)
  from g ok ms min root show ?thesis by simp
qed


lemma pmq_step_ok: "pmq_ok s \<Longrightarrow> pmq_ok (snd (pmq_step x s))"
proof (cases x)
  case (Add now message usr mp)
  assume "pmq_ok s"
  from add_message_ok [OF this] Add show ?thesis by (simp add: pmq_step_Add del: pmq_step.simps)
next
  case Next
  assume ok: "pmq_ok s"
  show ?thesis
  proof (cases "priority_queue s = []")
    case True
    with ok Next show ?thesis by (simp add: get_next_message_empty)
  next
    case False
    from get_next_message_ok [OF ok False] Next show ?thesis by auto
  qed
next
  case Peek
  assume "pmq_ok s"
  with Peek show ?thesis by simp
next
  case ClearQueue
  assume "pmq_ok s"
  with ClearQueue show ?thesis by (simp add: clear_queue_def pmq_ok_def is_heap_def)
next
  case ClearAll
  assume "pmq_ok s"
  with ClearAll show ?thesis by (simp add: clear_all_def pmq_ok_def is_heap_def)
qed

lemma run_ops_ok: "pmq_ok s \<Longrightarrow> pmq_ok (snd (run_ops xs s))"
proof (induction xs arbitrary: s)
  case Nil
  then show ?case by simp
next
  case (Cons x xs)
  from Cons.IH [OF pmq_step_ok [OF Cons.prems]] show ?case
    by (simp only: run_ops_Cons snd_conv)
qed

lemma reachable_ok: "pmq_ok (snd (run_ops xs (fresh_pmq cap)))"
  by (rule run_ops_ok [OF pmq_ok_fresh])

lemma reachable_distinct_counters:
  "distinct (map (\<lambda>x. fst (snd x)) (priority_queue (snd (run_ops xs (fresh_pmq cap)))))"
  using reachable_ok [of xs cap] by (simp add: pmq_ok_def)

lemma next_n_Suc:
  "next_n (Suc n) s =
     (fst (get_next_message s) # fst (next_n n (snd (get_next_message s))),
      snd (next_n n (snd (get_next_message s))))"
  by (simp add: case_prod_beta)

lemma next_n_sorted:
  "pmq_ok s \<Longrightarrow>
     sorted_wrt msg_le (somes (fst (next_n n s)))
     \<and> mset (map item_of (somes (fst (next_n n s)))) \<subseteq># mset (priority_queue s)
     \<and> (length (priority_queue s) \<le> n \<longrightarrow>
          mset (map item_of (somes (fst (next_n n s)))) = mset (priority_queue s))
     \<and> fst (next_n n s)
         = map Some (somes (fst (next_n n s))) @ replicate (n - length (priority_queue s)) None
     \<and> length (somes (fst (next_n n s))) = min n (length (priority_queue s))"
proof (induction n arbitrary: s)
  case 0
  then show ?case by simp
next
  case (Suc n)
  show ?case
  proof (cases "priority_queue s = []")
    case True
    then have g: "get_next_message s = (None, s)" by (rule get_next_message_empty)
    from Suc.IH [OF Suc.prems] True have e: "somes (fst (next_n n s)) = []"
      and r: "fst (next_n n s) = replicate n None"
      by auto
    show ?thesis
      unfolding next_n_Suc g using True e r by simp
  next
    case False
    from get_next_message_ok [OF Suc.prems False] obtain m s' where
      g: "get_next_message s = (Some m, s')" and ok: "pmq_ok s'"
      and ms: "mset (priority_queue s) = add_mset (item_of m) (mset (priority_queue s'))"
      and min: "\<forall>y \<in> set (priority_queue s). item_le (item_of m) y"
      by blast
    let ?rs = "somes (fst (next_n n s'))"
    from Suc.IH [OF ok] have
      srt: "sorted_wrt msg_le ?rs"
      and sub: "mset (map item_of ?rs) \<subseteq># mset (priority_queue s')"
      and all: "length (priority_queue s') \<le> n \<longrightarrow>
          mset (map item_of ?rs) = mset (priority_queue s')"
      and shape: "fst (next_n n s') = map Some ?rs @ replicate (n - length (priority_queue s')) None"
      and len: "length ?rs = min n (length (priority_queue s'))"
      by auto
    have l: "length (priority_queue s) = Suc (length (priority_queue s'))"
      using mset_eq_length [OF ms [unfolded mset.simps(2) [symmetric]]] by simp
    have "msg_le m m'" if "m' \<in> set ?rs" for m'
    proof -
      from that have "item_of m' \<in># mset (map item_of ?rs)" by simp
      with sub have "item_of m' \<in># mset (priority_queue s')" by (rule mset_subset_eqD)
      then have "item_of m' \<in># mset (priority_queue s)" by (simp add: ms)
      then have "item_of m' \<in> set (priority_queue s)" by simp
      with min show ?thesis by (simp add: item_le_item_of [symmetric])
    qed
    with srt have s1: "sorted_wrt msg_le (m # ?rs)" by simp
    have s2: "mset (map item_of (m # ?rs)) \<subseteq># mset (priority_queue s)"
      using sub by (simp add: ms)
    have s3: "length (priority_queue s) \<le> Suc n \<longrightarrow>
          mset (map item_of (m # ?rs)) = mset (priority_queue s)"
      using all l by (simp add: ms)
    have s4: "Some m # fst (next_n n s')
        = map Some (m # ?rs) @ replicate (Suc n - length (priority_queue s)) None"
      using shape l by simp
    have s5: "length (m # ?rs) = min (Suc n) (length (priority_queue s))"
      using len l by simp
    show ?thesis
      unfolding next_n_Suc g using s1 s2 s3 s4 s5 by simp
  qed
qed


lemma run_adds_queue:
  "pmq_ok s \<Longrightarrow>
     mset (priority_queue (snd (run_ops (map (\<lambda>(now, message, usr, mp). Add now message usr mp) ins) s)))
       = mset (priority_queue s)
         + mset (map item_of (fst (run_ops (map (\<lambda>(now, message, usr, mp). Add now message usr mp) ins) s)))"
proof (induction ins arbitrary: s)
  case Nil
  then show ?case by simp
next
  case (Cons i ins)
  obtain now message usr mp where i: "i = (now, message, usr, mp)" by (cases i)
  let ?s = "snd (add_message now message usr mp s)"
  from add_message_ok [OF Cons.prems, of now message usr mp]
  have ok: "pmq_ok ?s"
    and ms: "mset (priority_queue ?s)
       = add_mset (item_of (fst (add_message now message usr mp s))) (mset (priority_queue s))"
    by auto
  from Cons.IH [OF ok] ms show ?case
    by (simp add: i run_ops_Cons pmq_step_Add del: run_ops.simps pmq_step.simps)
qed

lemma run_adds_length:
  "length (fst (run_ops (map (\<lambda>(now, message, usr, mp). Add now message usr mp) ins) s))
     = length ins"
proof (induction ins arbitrary: s)
  case Nil
  then show ?case by simp
next
  case (Cons i ins)
  obtain now message usr mp where i: "i = (now, message, usr, mp)" by (cases i)
  from Cons.IH show ?case
    by (simp add: i run_ops_Cons pmq_step_Add del: run_ops.simps pmq_step.simps)
qed

lemma mset_map_item_of:
  assumes "mset (map item_of xs) = mset (map item_of ys)"
  shows "mset xs = mset ys"
proof -
  from assms have "mset (map (\<lambda>x. snd (snd x)) (map item_of xs))
      = mset (map (\<lambda>x. snd (snd x)) (map item_of ys))"
    by (simp only: mset_map)
  then show ?thesis by (simp add: comp_def)
qed

text \<open>
  C1. Take the state \<open>s\<close> after any sequence of operations on a new queue, and call
  \<^verbatim>\<open>get_next_message\<close> \<open>n\<close> times. The messages returned are in the order \<open>msg_le\<close>:
  priorities do not decrease, and among equal priorities counters do not decrease. The
  first \<open>min n (length (priority_queue s))\<close> calls return a message and all later ones
  return nothing; a single call returns nothing exactly when the pending list is empty.
  When the sequence is a sequence of admissions, as many calls as there were admissions
  return exactly the admitted messages.
\<close>

theorem next_returns_in_priority_order:
  "(let s = snd (run_ops xs (fresh_pmq cap));
        rs = fst (next_n n s)
    in sorted_wrt msg_le (somes rs)
       \<and> rs = map Some (somes rs) @ replicate (n - length (priority_queue s)) None
       \<and> length (somes rs) = min n (length (priority_queue s))
       \<and> (fst (get_next_message s) = None) = (priority_queue s = []))
   \<and> (let adds = map (\<lambda>(now, message, usr, mp). Add now message usr mp) ins;
          s = snd (run_ops adds (fresh_pmq cap));
          rs = fst (next_n (length ins) s)
      in mset (somes rs) = mset (fst (run_ops adds (fresh_pmq cap)))
         \<and> length (somes rs) = length ins)"
proof -
  let ?s = "snd (run_ops xs (fresh_pmq cap))"
  have ok: "pmq_ok ?s" by (rule reachable_ok)
  have "(fst (get_next_message ?s) = None) = (priority_queue ?s = [])"
  proof (cases "priority_queue ?s = []")
    case True
    then show ?thesis by (simp add: get_next_message_empty)
  next
    case False
    from get_next_message_ok [OF ok False] False show ?thesis by auto
  qed
  with next_n_sorted [OF ok, of n] have first:
    "let s = ?s; rs = fst (next_n n s)
     in sorted_wrt msg_le (somes rs)
       \<and> rs = map Some (somes rs) @ replicate (n - length (priority_queue s)) None
       \<and> length (somes rs) = min n (length (priority_queue s))
       \<and> (fst (get_next_message s) = None) = (priority_queue s = [])"
    by (simp add: Let_def)
  let ?adds = "map (\<lambda>(now, message, usr, mp). Add now message usr mp) ins"
  let ?t = "snd (run_ops ?adds (fresh_pmq cap))"
  let ?objs = "fst (run_ops ?adds (fresh_pmq cap))"
  let ?rs = "somes (fst (next_n (length ins) ?t))"
  have okt: "pmq_ok ?t" by (rule reachable_ok)
  have q: "mset (priority_queue ?t) = mset (map item_of ?objs)"
    using run_adds_queue [OF pmq_ok_fresh [of cap], of ins]
    by (simp add: fresh_pmq_def)
  have lo: "length ?objs = length ins" by (rule run_adds_length)
  have lq: "length (priority_queue ?t) = length ins"
    using mset_eq_length [OF q] lo by simp
  have "mset (map item_of ?rs) = mset (priority_queue ?t)"
    using next_n_sorted [OF okt, of "length ins", THEN conjunct2, THEN conjunct2, THEN conjunct1]
      lq by simp
  moreover have lr: "length ?rs = length ins"
    using next_n_sorted [OF okt, of "length ins", THEN conjunct2, THEN conjunct2,
        THEN conjunct2, THEN conjunct2] lq by simp
  ultimately have "mset (map item_of ?rs) = mset (priority_queue ?t)" by simp
  with q have "mset (map item_of ?rs) = mset (map item_of ?objs)" by simp
  then have "mset ?rs = mset ?objs" by (rule mset_map_item_of)
  with lr have second:
    "let adds = ?adds; s = snd (run_ops adds (fresh_pmq cap));
         rs = fst (next_n (length ins) s)
     in mset (somes rs) = mset (fst (run_ops adds (fresh_pmq cap)))
        \<and> length (somes rs) = length ins"
    by (simp add: Let_def)
  from first second show ?thesis by (rule conjI)
qed

text \<open>
  An example: ``hi'' (NORMAL), then ``urgent'' (URGENT by keyword), then ``yo'' with the
  manual priority 1 are admitted; four calls return ``urgent'', ``yo'', ``hi'' and nothing.
\<close>

lemma next_order_example:
  "map (map_option msg_text) (fst (next_n 4 (snd (run_ops
      [Add 0 ''hi'' ''a'' None, Add 1 ''urgent'' ''b'' None, Add 2 ''yo'' ''c'' (Some 1)]
      (fresh_pmq 10)))))
   = [Some ''urgent'', Some ''yo'', Some ''hi'', None]"
  by code_simp

end
